theory Spec2Isabelle
  imports Complex_Main
begin

section \<open>Python values shared by the modules\<close>

text \<open>
  Exceptions are values. \<open>RequestException\<close> stands for
  \<^verbatim>\<open>requests.exceptions.RequestException\<close> and its subclasses, \<open>Exception\<close> for any
  other subclass of Python's \<^verbatim>\<open>Exception\<close> (the string is the class name), and
  \<open>KeyboardInterrupt\<close> and \<open>SystemExit\<close> derive from \<^verbatim>\<open>BaseException\<close> only, so that
  \<^verbatim>\<open>except Exception\<close> does not catch them.
\<close>

datatype exn =
    RequestException string
  | Exception string
  | KeyboardInterrupt
  | SystemExit int

fun is_Exception :: "exn \<Rightarrow> bool" where
  "is_Exception (RequestException m) = True"
| "is_Exception (Exception c) = True"
| "is_Exception KeyboardInterrupt = False"
| "is_Exception (SystemExit c) = False"

subsection \<open>Strings: \<^verbatim>\<open>str.lower\<close> and \<^verbatim>\<open>int(str)\<close>\<close>

text \<open>
  A string is the list of its code points, all below 256, as the text of an HTTP header
  is. \<open>lower\<close> is \<^verbatim>\<open>str.lower\<close> on ASCII letters.
\<close>

definition lower_char :: "char \<Rightarrow> char" where
  "lower_char c =
     (let n = (of_char c :: nat) in if 65 \<le> n \<and> n \<le> 90 then char_of (n + 32) else c)"

definition lower :: "string \<Rightarrow> string" where
  "lower s = map lower_char s"

text \<open>
  The whitespace \<^verbatim>\<open>int\<close> skips around a literal: the ASCII characters tab, line feed,
  vertical tab, form feed, carriage return and space, and the two spaces above ASCII,
  codes 133 and 160. The separators with codes 28 to 31 are not skipped.
\<close>

definition is_space :: "char \<Rightarrow> bool" where
  "is_space c = ((of_char c :: nat) \<in> {9, 10, 11, 12, 13, 32, 133, 160})"

definition is_digit :: "char \<Rightarrow> bool" where
  "is_digit c = (let n = (of_char c :: nat) in 48 \<le> n \<and> n \<le> 57)"

definition digit_val :: "char \<Rightarrow> int" where
  "digit_val c = int (of_char c) - 48"

definition strip :: "string \<Rightarrow> string" where
  "strip s = rev (dropWhile is_space (rev (dropWhile is_space s)))"

text \<open>
  The digits of a decimal literal: one underscore may stand between two digits.
  \<open>prev\<close> says that the character just read was a digit.
\<close>

fun parse_digits :: "int \<Rightarrow> bool \<Rightarrow> string \<Rightarrow> int option" where
  "parse_digits acc prev [] = (if prev then Some acc else None)"
| "parse_digits acc prev (c # cs) =
     (if is_digit c then parse_digits (acc * 10 + digit_val c) True cs
      else if c = CHR ''_'' \<and> prev then parse_digits acc False cs
      else None)"

text \<open>
  \<^verbatim>\<open>int(s)\<close> for a string: surrounding whitespace is dropped, a sign may lead, and
  anything else than a decimal literal raises \<^verbatim>\<open>ValueError\<close>; so does a literal of
  more than 4300 digits, the interpreter's default limit for the conversion (leading
  zeros count, the sign and the underscores do not).
\<close>

definition py_int :: "string \<Rightarrow> exn + int" where
  "py_int s =
     (let t = strip s;
          r = (case t of
                 c # cs \<Rightarrow>
                   (if c = CHR ''-'' then map_option uminus (parse_digits 0 False cs)
                    else if c = CHR ''+'' then parse_digits 0 False cs
                    else parse_digits 0 False t)
               | [] \<Rightarrow> None)
      in case r of
           None \<Rightarrow> Inl (Exception ''ValueError'')
         | Some n \<Rightarrow>
             if 4300 < length (filter is_digit t) then Inl (Exception ''ValueError'')
             else Inr n)"

section \<open>config.py\<close>

record rate_limit_config =
  max_requests :: nat
  delay_between_requests :: rat
  retry_attempts :: nat
  backoff_factor :: nat

definition RATE_LIMIT_CONFIG :: rate_limit_config where
  "RATE_LIMIT_CONFIG =
     \<lparr>max_requests = 100, delay_between_requests = 1 / 10,
      retry_attempts = 3, backoff_factor = 2\<rparr>"

text \<open>A dictionary literal with string values, in insertion order.\<close>

type_synonym header_dict = "(string \<times> string) list"

definition DEFAULT_HEADERS :: header_dict where
  "DEFAULT_HEADERS =
     [(''Content-Type'', ''application/json''), (''User-Agent'', ''QA-Automation-Tests/1.0'')]"

definition REQRES_HEADERS :: header_dict where
  "REQRES_HEADERS =
     DEFAULT_HEADERS @
     [(''Accept'', ''application/json''), (''Host'', ''reqres.in''),
      (''x-api-key'', ''reqres-free-v1''), (''Accept-Encoding'', ''gzip, deflate''),
      (''Connection'', ''keep-alive'')]"

section \<open>api\_automation.py: the request wrapper and the rate-limit probe\<close>

text \<open>
  A response as the probe reads it. \<open>headers\<close> is the case-insensitive dictionary of
  \<^verbatim>\<open>requests\<close>, keyed by the lower-cased field name.
\<close>

record response =
  status_code :: int
  headers :: "string \<rightharpoonup> string"

definition headers_get :: "(string \<rightharpoonup> string) \<Rightarrow> string \<Rightarrow> string option" where
  "headers_get h k = h (lower k)"

text \<open>What the code does to the outside world, in order.\<close>

datatype event =
    Request nat
  | Log_request int
  | Log_error string
  | Rate_limit_detected int
  | Sleep rat
  | Warning nat exn
  | Summary nat nat

record probe_state =
  successful_requests :: nat
  rate_limited_requests :: nat
  events :: "event list"

definition emit :: "event \<Rightarrow> probe_state \<Rightarrow> probe_state" where
  "emit e st = st\<lparr>events := events st @ [e]\<rparr>"


definition requests :: "event list \<Rightarrow> nat list" where
  "requests evs = concat (map (\<lambda>e. case e of Request i \<Rightarrow> [i] | _ \<Rightarrow> []) evs)"

text \<open>
  \<^verbatim>\<open>time.sleep(d)\<close>. The interpreter turns the duration into a signed 64-bit number of
  nanoseconds and raises \<^verbatim>\<open>OverflowError\<close> when it does not fit, then raises
  \<^verbatim>\<open>ValueError\<close> for a negative duration. A duration that passes both checks is handed
  to the operating system, which may still refuse it with \<^verbatim>\<open>OSError\<close>: how long a sleep
  it accepts depends on the platform and its clock, so \<open>refuses\<close> is a parameter
  (\<open>refuses d\<close>: a sleep of \<open>d\<close> seconds is refused). Whenever an exception is raised
  nothing is slept. The second component is the exception raised, if any. A duration given
  as a float is the rational its literal denotes; the rounding of floats is not modelled.
\<close>

definition time_sleep ::
  "(rat \<Rightarrow> bool) \<Rightarrow> rat \<Rightarrow> probe_state \<Rightarrow> probe_state \<times> exn option" where
  "time_sleep refuses d st =
     (if d * 1000000000 < - 9223372036854775808 \<or> 9223372036854775807 < d * 1000000000
      then (st, Some (Exception ''OverflowError''))
      else if d < 0 then (st, Some (Exception ''ValueError''))
      else if refuses d then (st, Some (Exception ''OSError''))
      else (emit (Sleep d) st, None))"


text \<open>
  \<^verbatim>\<open>make_api_request\<close>: \<open>out\<close> is what \<^verbatim>\<open>session.request\<close> does for this call, a
  response or an exception. A response is logged and returned; a
  \<^verbatim>\<open>RequestException\<close> is logged and raised again; any other exception passes through.
\<close>

definition make_api_request ::
  "exn + response \<Rightarrow> probe_state \<Rightarrow> probe_state \<times> (exn + response)" where
  "make_api_request out st =
     (case out of
        Inr r \<Rightarrow> (emit (Log_request (status_code r)) st, Inr r)
      | Inl (RequestException m) \<Rightarrow> (emit (Log_error m) st, Inl (RequestException m))
      | Inl e \<Rightarrow> (st, Inl e))"

text \<open>
  The \<^verbatim>\<open>try\<close> block of one iteration of \<^verbatim>\<open>_test_reqres_rate_limiting\<close>. The second
  component is the exception the block raises, if any.
\<close>

definition probe_try ::
  "(rat \<Rightarrow> bool) \<Rightarrow> rate_limit_config \<Rightarrow> exn + response \<Rightarrow> nat \<Rightarrow> probe_state
     \<Rightarrow> probe_state \<times> exn option" where
  "probe_try refuses cfg out i st =
     (case make_api_request out (emit (Request i) st) of
        (st1, Inl e) \<Rightarrow> (st1, Some e)
      | (st1, Inr r) \<Rightarrow>
          if status_code r = 429 then
            (let st2 = st1\<lparr>rate_limited_requests := rate_limited_requests st1 + 1\<rparr>;
                 retry_after = headers_get (headers r) ''Retry-After''
             in case (case retry_after of
                        None \<Rightarrow> Inr 5
                      | Some s \<Rightarrow> if s = [] then Inr 5 else py_int s) of
                  Inl e \<Rightarrow> (st2, Some e)
                | Inr wait_time \<Rightarrow>
                    time_sleep refuses (of_int wait_time)
                      (emit (Rate_limit_detected wait_time) st2))
          else
            (let st2 = (if status_code r = 200
                        then st1\<lparr>successful_requests := successful_requests st1 + 1\<rparr>
                        else st1)
             in time_sleep refuses (delay_between_requests cfg) st2))"

text \<open>
  One iteration with its handler: \<^verbatim>\<open>except Exception\<close> logs and continues, anything
  else leaves the loop.
\<close>

definition probe_iteration ::
  "(rat \<Rightarrow> bool) \<Rightarrow> rate_limit_config \<Rightarrow> exn + response \<Rightarrow> nat \<Rightarrow> probe_state
     \<Rightarrow> probe_state \<times> exn option" where
  "probe_iteration refuses cfg out i st =
     (case probe_try refuses cfg out i st of
        (st', None) \<Rightarrow> (st', None)
      | (st', Some e) \<Rightarrow>
          if is_Exception e then (emit (Warning (i + 1) e) st', None) else (st', Some e))"

text \<open>The \<^verbatim>\<open>for\<close> loop over the iteration numbers; \<open>net i\<close> is what the transport does in iteration \<open>i\<close>.\<close>

fun probe_loop ::
  "(rat \<Rightarrow> bool) \<Rightarrow> rate_limit_config \<Rightarrow> (nat \<Rightarrow> exn + response) \<Rightarrow> nat list
     \<Rightarrow> probe_state \<Rightarrow> probe_state \<times> exn option" where
  "probe_loop refuses cfg net [] st = (st, None)"
| "probe_loop refuses cfg net (i # is) st =
     (case probe_iteration refuses cfg (net i) i st of
        (st', None) \<Rightarrow> probe_loop refuses cfg net is st'
      | (st', Some e) \<Rightarrow> (st', Some e))"

definition probe_init :: probe_state where
  "probe_init = \<lparr>successful_requests = 0, rate_limited_requests = 0, events = []\<rparr>"

definition rate_limiting ::
  "(rat \<Rightarrow> bool) \<Rightarrow> rate_limit_config \<Rightarrow> (nat \<Rightarrow> exn + response)
     \<Rightarrow> probe_state \<times> exn option" where
  "rate_limiting refuses cfg net =
     (case probe_loop refuses cfg net [0..<max_requests cfg] probe_init of
        (st, None) \<Rightarrow>
          (emit (Summary (successful_requests st) (rate_limited_requests st)) st, None)
      | (st, Some e) \<Rightarrow> (st, Some e))"

text \<open>\<^verbatim>\<open>_test_reqres_rate_limiting\<close> reads the module's configuration.\<close>

definition test_reqres_rate_limiting ::
  "(rat \<Rightarrow> bool) \<Rightarrow> (nat \<Rightarrow> exn + response) \<Rightarrow> probe_state \<times> exn option" where
  "test_reqres_rate_limiting refuses net = rate_limiting refuses RATE_LIMIT_CONFIG net"

text \<open>What an outcome of the transport must be for \<^verbatim>\<open>except Exception\<close> to catch it.\<close>

definition raises_Exception :: "exn + response \<Rightarrow> bool" where
  "raises_Exception out = (case out of Inl e \<Rightarrow> is_Exception e | Inr r \<Rightarrow> True)"

section \<open>api\_automation.py: HTTPSessionManager\<close>

text \<open>
  The retry strategy, the transport adapter and the session as \<^verbatim>\<open>_create_session\<close>
  configures them. \<open>session_headers\<close> is a case-insensitive dictionary, keyed by the
  lower-cased field name; \<open>adapters\<close> maps a URL prefix to the adapter mounted there.
\<close>

record retry =
  retry_total :: nat
  retry_backoff_factor :: nat
  status_forcelist :: "int list"
  allowed_methods :: "string list"

record http_adapter =
  max_retries :: retry
  pool_connections :: nat
  pool_maxsize :: nat

record session =
  session_headers :: "string \<rightharpoonup> string"
  adapters :: "string \<rightharpoonup> http_adapter"

text \<open>\<^verbatim>\<open>headers.update(d)\<close> on a case-insensitive dictionary: later items win.\<close>

definition headers_update :: "(string \<rightharpoonup> string) \<Rightarrow> header_dict \<Rightarrow> (string \<rightharpoonup> string)" where
  "headers_update h d = fold (\<lambda>(k, v) m. m(lower k \<mapsto> v)) d h"

text \<open>
  \<^verbatim>\<open>_create_session\<close>. \<open>fresh\<close> is the object \<^verbatim>\<open>requests.Session()\<close> returns, with the
  headers and adapters the library gives it. \<^verbatim>\<open>headers or DEFAULT_HEADERS\<close> takes the
  default for \<^verbatim>\<open>None\<close> and for an empty dictionary.
\<close>

definition create_session :: "session \<Rightarrow> header_dict option \<Rightarrow> session" where
  "create_session fresh hdrs =
     (let chosen = (case hdrs of None \<Rightarrow> DEFAULT_HEADERS
                    | Some d \<Rightarrow> if d = [] then DEFAULT_HEADERS else d);
          retry_strategy =
            \<lparr>retry_total = retry_attempts RATE_LIMIT_CONFIG,
             retry_backoff_factor = backoff_factor RATE_LIMIT_CONFIG,
             status_forcelist = [429, 500, 502, 503, 504],
             allowed_methods = [''HEAD'', ''GET'', ''POST'', ''PUT'', ''DELETE'']\<rparr>;
          adapter =
            \<lparr>max_retries = retry_strategy, pool_connections = 10, pool_maxsize = 10\<rparr>
      in fresh\<lparr>session_headers := headers_update (session_headers fresh) chosen,
               adapters := (adapters fresh)(''http://'' \<mapsto> adapter, ''https://'' \<mapsto> adapter)\<rparr>)"

text \<open>What the API module prints and does, in order.\<close>

datatype api_event =
    Close nat
  | Session_closed string
  | Close_warning string exn
  | Test_run string
  | Test_failed string exn
  | Report nat nat
  | Success_rate nat nat
  | Critical exn
  | Close_all_sessions

text \<open>
  The state of the module. \<open>sessions\<close> is the class attribute \<^verbatim>\<open>_sessions\<close>, the
  dictionary every \<^verbatim>\<open>HTTPSessionManager()\<close> shares: it maps a name to a reference, in
  insertion order. \<open>objects\<close> holds the Session objects; a reference is an index into it.
\<close>

record api_state =
  sessions :: "(string \<times> nat) list"
  objects :: "session list"
  trace :: "api_event list"

definition api_init :: api_state where
  "api_init = \<lparr>sessions = [], objects = [], trace = []\<rparr>"

definition get_session ::
  "session \<Rightarrow> api_state \<Rightarrow> string \<Rightarrow> header_dict option \<Rightarrow> api_state \<times> nat" where
  "get_session fresh m api_name hdrs =
     (case map_of (sessions m) api_name of
        Some ref \<Rightarrow> (m, ref)
      | None \<Rightarrow>
          (let ref = length (objects m)
           in (m\<lparr>sessions := sessions m @ [(api_name, ref)],
                 objects := objects m @ [create_session fresh hdrs]\<rparr>, ref)))"

text \<open>A run of \<^verbatim>\<open>get_session\<close> calls, with the reference each call returns.\<close>

fun get_sessions ::
  "session \<Rightarrow> api_state \<Rightarrow> (string \<times> header_dict option) list \<Rightarrow> api_state \<times> nat list" where
  "get_sessions fresh m [] = (m, [])"
| "get_sessions fresh m ((api_name, hdrs) # calls) =
     (case get_session fresh m api_name hdrs of
        (m1, ref) \<Rightarrow>
          (case get_sessions fresh m1 calls of (m2, refs) \<Rightarrow> (m2, ref # refs)))"

text \<open>
  The loop of \<^verbatim>\<open>close_all_sessions\<close> over the items of the dictionary. \<open>closes ref\<close> is
  what \<^verbatim>\<open>session.close()\<close> raises for the object \<open>ref\<close>, if anything.
\<close>

fun close_loop ::
  "(nat \<Rightarrow> exn option) \<Rightarrow> (string \<times> nat) list \<Rightarrow> api_event list
     \<Rightarrow> api_event list \<times> exn option" where
  "close_loop closes [] tr = (tr, None)"
| "close_loop closes ((session_name, ref) # rest) tr =
     (case closes ref of
        None \<Rightarrow> close_loop closes rest (tr @ [Close ref, Session_closed session_name])
      | Some e \<Rightarrow>
          if is_Exception e
          then close_loop closes rest (tr @ [Close ref, Close_warning session_name e])
          else (tr @ [Close ref], Some e))"

definition close_all_sessions ::
  "(nat \<Rightarrow> exn option) \<Rightarrow> api_state \<Rightarrow> api_state \<times> exn option" where
  "close_all_sessions closes m =
     (case close_loop closes (sessions m) (trace m @ [Close_all_sessions]) of
        (tr, None) \<Rightarrow> (m\<lparr>sessions := [], trace := tr\<rparr>, None)
      | (tr, Some e) \<Rightarrow> (m\<lparr>trace := tr\<rparr>, Some e))"

text \<open>The references \<^verbatim>\<open>close()\<close> was called on, in order.\<close>

definition closed_refs :: "api_event list \<Rightarrow> nat list" where
  "closed_refs tr = concat (map (\<lambda>e. case e of Close ref \<Rightarrow> [ref] | _ \<Rightarrow> []) tr)"

text \<open>Every exception a \<^verbatim>\<open>close()\<close> of a registered session raises is an \<^verbatim>\<open>Exception\<close>.\<close>

definition close_caught :: "(nat \<Rightarrow> exn option) \<Rightarrow> (string \<times> nat) list \<Rightarrow> bool" where
  "close_caught closes ss = (\<forall>s \<in> set ss. \<forall>e. closes (snd s) = Some e \<longrightarrow> is_Exception e)"

section \<open>api\_automation.py: run\_all\_api\_tests\<close>

text \<open>
  A test function as the orchestrator sees it: its name, the \<^verbatim>\<open>get_session\<close> calls it
  makes on entry, and what the call then does: it returns (\<open>None\<close>) or it raises. Both
  test functions of the module log their exception and raise it again, so the exception
  that leaves the function is the one raised inside.
\<close>

record scenario =
  test_name :: string
  acquires :: "(string \<times> header_dict option) list"
  outcome :: "exn option"

definition test_jsonplaceholder_api :: "exn option \<Rightarrow> scenario" where
  "test_jsonplaceholder_api out =
     \<lparr>test_name = ''test_jsonplaceholder_api'', acquires = [(''jsonplaceholder'', None)],
      outcome = out\<rparr>"

definition test_reqres_api :: "exn option \<Rightarrow> scenario" where
  "test_reqres_api out =
     \<lparr>test_name = ''test_reqres_api'', acquires = [(''reqres'', Some REQRES_HEADERS)],
      outcome = out\<rparr>"

text \<open>
  The \<^verbatim>\<open>for test_func in test_functions\<close> loop with its two counters. An
  \<^verbatim>\<open>Exception\<close> is counted and the loop goes on; any other exception leaves the loop.
\<close>

fun test_loop ::
  "session \<Rightarrow> scenario list \<Rightarrow> nat \<Rightarrow> nat \<Rightarrow> api_state
     \<Rightarrow> (nat \<times> nat \<times> api_state) \<times> exn option" where
  "test_loop fresh [] successful_tests failed_tests m =
     ((successful_tests, failed_tests, m), None)"
| "test_loop fresh (t # ts) successful_tests failed_tests m =
     (let m1 = fst (get_sessions fresh (m\<lparr>trace := trace m @ [Test_run (test_name t)]\<rparr>)
                      (acquires t))
      in case outcome t of
           None \<Rightarrow> test_loop fresh ts (successful_tests + 1) failed_tests m1
         | Some e \<Rightarrow>
             if is_Exception e
             then test_loop fresh ts successful_tests (failed_tests + 1)
                    (m1\<lparr>trace := trace m1 @ [Test_failed (test_name t) e]\<rparr>)
             else ((successful_tests, failed_tests, m1), Some e))"

text \<open>
  The outer \<^verbatim>\<open>try\<close> block of \<^verbatim>\<open>run_all_api_tests\<close> with its handler, for a list of
  test functions: the loop, then the report. The last line of the report divides by the
  number of tests; the handler logs the \<^verbatim>\<open>ZeroDivisionError\<close>. The second component is
  the exception that is pending when the block is left, if any.
\<close>

definition try_tests :: "session \<Rightarrow> scenario list \<Rightarrow> api_state \<Rightarrow> api_state \<times> exn option" where
  "try_tests fresh test_functions m =
     (case test_loop fresh test_functions 0 0 m of
        ((s, f, m1), Some e) \<Rightarrow> (m1, Some e)
      | ((s, f, m1), None) \<Rightarrow>
          (let m2 = m1\<lparr>trace := trace m1 @ [Report s f]\<rparr>
           in if s + f = 0
              then (m2\<lparr>trace := trace m2 @ [Critical (Exception ''ZeroDivisionError'')]\<rparr>,
                    None)
              else (m2\<lparr>trace := trace m2 @ [Success_rate s (s + f)]\<rparr>, None)))"

text \<open>
  With the \<^verbatim>\<open>finally\<close> block: the sessions are closed, then a pending exception goes
  on, unless closing raised one itself. The second component is the exception that
  leaves the function, if any.
\<close>

definition run_tests ::
  "(nat \<Rightarrow> exn option) \<Rightarrow> session \<Rightarrow> scenario list \<Rightarrow> api_state
     \<Rightarrow> api_state \<times> exn option" where
  "run_tests closes fresh test_functions m =
     (case try_tests fresh test_functions m of
        (m3, pending) \<Rightarrow>
          (case close_all_sessions closes m3 of
             (m4, Some e) \<Rightarrow> (m4, Some e)
           | (m4, None) \<Rightarrow> (m4, pending)))"

definition run_all_api_tests ::
  "(nat \<Rightarrow> exn option) \<Rightarrow> session \<Rightarrow> exn option \<Rightarrow> exn option \<Rightarrow> api_state
     \<Rightarrow> api_state \<times> exn option" where
  "run_all_api_tests closes fresh out1 out2 m =
     run_tests closes fresh [test_jsonplaceholder_api out1, test_reqres_api out2] m"

text \<open>Readings of a trace: the tests started, the failures recorded, the reports printed.\<close>

definition tests_run :: "api_event list \<Rightarrow> string list" where
  "tests_run tr = concat (map (\<lambda>e. case e of Test_run n \<Rightarrow> [n] | _ \<Rightarrow> []) tr)"

definition failures :: "api_event list \<Rightarrow> (string \<times> exn) list" where
  "failures tr = concat (map (\<lambda>e. case e of Test_failed n x \<Rightarrow> [(n, x)] | _ \<Rightarrow> []) tr)"

definition reports :: "api_event list \<Rightarrow> (nat \<times> nat) list" where
  "reports tr = concat (map (\<lambda>e. case e of Report s f \<Rightarrow> [(s, f)] | _ \<Rightarrow> []) tr)"

definition teardowns :: "api_event list \<Rightarrow> nat" where
  "teardowns tr = length (filter (\<lambda>e. e = Close_all_sessions) tr)"

text \<open>Every exception a test function of the list raises is an \<^verbatim>\<open>Exception\<close>.\<close>

definition raise_Exceptions :: "scenario list \<Rightarrow> bool" where
  "raise_Exceptions ts = (\<forall>t \<in> set ts. \<forall>e. outcome t = Some e \<longrightarrow> is_Exception e)"

definition passed :: "scenario list \<Rightarrow> string list" where
  "passed ts = concat (map (\<lambda>t. case outcome t of None \<Rightarrow> [test_name t] | Some e \<Rightarrow> []) ts)"

definition raised :: "scenario list \<Rightarrow> (string \<times> exn) list" where
  "raised ts =
     concat (map (\<lambda>t. case outcome t of None \<Rightarrow> [] | Some e \<Rightarrow> [(test_name t, e)]) ts)"

text \<open>The events \<^verbatim>\<open>close_all_sessions\<close> adds for the sessions it closes.\<close>

fun is_close_event :: "api_event \<Rightarrow> bool" where
  "is_close_event (Close ref) = True"
| "is_close_event (Session_closed n) = True"
| "is_close_event (Close_warning n e) = True"
| "is_close_event e = False"

definition loop_state :: "(nat \<times> nat \<times> api_state) \<times> exn option \<Rightarrow> api_state" where
  "loop_state r = snd (snd (fst r))"

section \<open>web\_automation.py: run\_all\_web\_tests\<close>

definition web_test_functions :: "string list" where
  "web_test_functions =
     [''test_authentication'', ''test_dynamic_loading'', ''test_complex_forms'',
      ''test_drag_and_drop'', ''test_file_operations'', ''test_hover_interactions'',
      ''test_javascript_alerts'', ''test_multiple_windows'']"

text \<open>
  The loop over the web tests; \<open>web t\<close> is what the test function \<open>t\<close> raises, if
  anything. As in the API module an \<^verbatim>\<open>Exception\<close> is counted and any other exception
  leaves the loop.
\<close>

fun web_loop ::
  "(string \<Rightarrow> exn option) \<Rightarrow> string list \<Rightarrow> nat \<Rightarrow> nat \<Rightarrow> (nat \<times> nat) \<times> exn option" where
  "web_loop web [] successful_tests failed_tests = ((successful_tests, failed_tests), None)"
| "web_loop web (t # ts) successful_tests failed_tests =
     (case web t of
        None \<Rightarrow> web_loop web ts (successful_tests + 1) failed_tests
      | Some e \<Rightarrow>
          if is_Exception e then web_loop web ts successful_tests (failed_tests + 1)
          else ((successful_tests, failed_tests), Some e))"

text \<open>
  \<^verbatim>\<open>quit_driver\<close>: with a driver, \<^verbatim>\<open>driver.quit()\<close> is called and an \<^verbatim>\<open>Exception\<close> it
  raises is logged. The result is the exception that leaves the method, if any.
\<close>

definition quit_driver :: "bool \<Rightarrow> exn option \<Rightarrow> exn option" where
  "quit_driver has_driver quit =
     (if has_driver
      then (case quit of None \<Rightarrow> None | Some e \<Rightarrow> if is_Exception e then None else Some e)
      else None)"

text \<open>
  \<^verbatim>\<open>run_all_web_tests\<close>: the exception that leaves the function, if any. The report
  follows the loop, and the handler of the outer \<^verbatim>\<open>try\<close> catches what it raises.
\<close>

definition run_all_web_tests :: "(string \<Rightarrow> exn option) \<Rightarrow> bool \<Rightarrow> exn option \<Rightarrow> exn option" where
  "run_all_web_tests web has_driver quit =
     (let pending = (case web_loop web web_test_functions 0 0 of
                       ((s, f), Some e) \<Rightarrow> Some e
                     | ((s, f), None) \<Rightarrow> None)
      in case quit_driver has_driver quit of Some e \<Rightarrow> Some e | None \<Rightarrow> pending)"

section \<open>test\_runner.py\<close>

text \<open>
  What one run of the script meets: the interpreter and the libraries, what each blocking
  step raises (a \<^verbatim>\<open>KeyboardInterrupt\<close> where the user interrupts it), and what the test
  functions do.
\<close>

record run_input =
  version_major :: nat
  version_minor :: nat
  importable :: "string \<Rightarrow> bool"
  startup_sleep :: "exn option"
  web_tests :: "string \<Rightarrow> exn option"
  has_driver :: bool
  driver_quit :: "exn option"
  phase_sleep :: "exn option"
  jsonplaceholder_test :: "exn option"
  reqres_test :: "exn option"
  session_close :: "nat \<Rightarrow> exn option"
  requests_session :: session
  final_report :: "exn option"

definition check_environment :: "run_input \<Rightarrow> bool" where
  "check_environment inp =
     (if version_major inp < 3 \<or> (version_major inp = 3 \<and> version_minor inp < 8) then False
      else if \<not> importable inp ''selenium'' then False
      else if \<not> importable inp ''requests'' then False
      else if \<not> importable inp ''jsonschema'' then False
      else True)"

text \<open>
  \<^verbatim>\<open>_execute_test_suite\<close>, given what the suite function raises: \<open>True\<close> when it
  returns, \<open>False\<close> when it raises an \<^verbatim>\<open>Exception\<close>; any other exception goes on.
\<close>

definition execute_test_suite :: "exn option \<Rightarrow> exn + bool" where
  "execute_test_suite out =
     (case out of
        None \<Rightarrow> Inr True
      | Some e \<Rightarrow> if is_Exception e then Inr False else Inl e)"

text \<open>The \<^verbatim>\<open>try\<close> block of \<^verbatim>\<open>run_all_tests\<close>: both suites, with the pause between them.\<close>

definition run_suites :: "run_input \<Rightarrow> exn + (bool \<times> bool)" where
  "run_suites inp =
     (case execute_test_suite
             (run_all_web_tests (web_tests inp) (has_driver inp) (driver_quit inp)) of
        Inl e \<Rightarrow> Inl e
      | Inr web_test_success \<Rightarrow>
          (case phase_sleep inp of
             Some e \<Rightarrow> Inl e
           | None \<Rightarrow>
               (case execute_test_suite
                       (snd (run_all_api_tests (session_close inp) (requests_session inp)
                               (jsonplaceholder_test inp) (reqres_test inp) api_init)) of
                  Inl e \<Rightarrow> Inl e
                | Inr api_test_success \<Rightarrow> Inr (web_test_success, api_test_success))))"

text \<open>
  \<^verbatim>\<open>run_all_tests\<close>: the handlers turn a \<^verbatim>\<open>KeyboardInterrupt\<close> and an
  \<^verbatim>\<open>Exception\<close> into the result \<open>False\<close>; the \<^verbatim>\<open>finally\<close> block prints the final
  report, and an exception raised there replaces the result.
\<close>

definition run_all_tests :: "run_input \<Rightarrow> exn + bool" where
  "run_all_tests inp =
     (let r = (case run_suites inp of
                 Inr (web_test_success, api_test_success) \<Rightarrow>
                   Inr (web_test_success \<and> api_test_success)
               | Inl KeyboardInterrupt \<Rightarrow> Inr False
               | Inl e \<Rightarrow> if is_Exception e then Inr False else Inl e)
      in case final_report inp of Some e \<Rightarrow> Inl e | None \<Rightarrow> r)"

text \<open>\<^verbatim>\<open>main\<close> always ends in \<^verbatim>\<open>sys.exit\<close> or in an exception: the result is what it raises.\<close>

definition main :: "run_input \<Rightarrow> exn" where
  "main inp =
     (if \<not> check_environment inp then SystemExit 1
      else case startup_sleep inp of
             Some e \<Rightarrow> e
           | None \<Rightarrow>
               (case run_all_tests inp of
                  Inl e \<Rightarrow> e
                | Inr success \<Rightarrow> if success then SystemExit 0 else SystemExit 1))"

text \<open>
  The block under \<^verbatim>\<open>if __name__ == "__main__"\<close>: the exit code of the process.
\<close>

definition script :: "run_input \<Rightarrow> int" where
  "script inp =
     (case main inp of
        SystemExit code \<Rightarrow> code
      | KeyboardInterrupt \<Rightarrow> 130
      | RequestException msg \<Rightarrow> 1
      | Exception cls \<Rightarrow> 1)"

text \<open>A run on a sound installation where nothing raises.\<close>

definition quiet_run :: run_input where
  "quiet_run =
     \<lparr>version_major = 3, version_minor = 11, importable = (\<lambda>name. True),
      startup_sleep = None, web_tests = (\<lambda>t. None), has_driver = True, driver_quit = None,
      phase_sleep = None, jsonplaceholder_test = None, reqres_test = None,
      session_close = (\<lambda>ref. None),
      requests_session = \<lparr>session_headers = Map.empty, adapters = Map.empty\<rparr>,
      final_report = None\<rparr>"


section \<open>JSON documents and the schema validator\<close>

text \<open>
  A document as \<^verbatim>\<open>response.json()\<close> gives it: \<open>JInt\<close> is a Python \<^verbatim>\<open>int\<close>, \<open>JFloat\<close> a
  \<^verbatim>\<open>float\<close> with its value, \<open>JObject\<close> a dictionary (an association list; a key is looked
  up with \<open>map_of\<close>).
\<close>

datatype json =
    JNull
  | JBool bool
  | JInt int
  | JFloat rat
  | JString string
  | JArray "json list"
  | JObject "(string \<times> json) list"

datatype json_type = T_object | T_array | T_string | T_integer | T_number | T_boolean | T_null

text \<open>
  A schema with the keywords the schemas of config.py use. A keyword the dictionary
  does not have is \<open>None\<close>, an empty list, or \<open>True\<close> for \<^verbatim>\<open>additionalProperties\<close>.
\<close>

datatype schema =
  Schema (schema_type: "json_type option")
         (properties: "(string \<times> schema) list")
         (required: "string list")
         (additionalProperties: bool)
         (minimum: "int option")
         (minLength: "nat option")

text \<open>
  The \<^verbatim>\<open>type\<close> keyword. A \<^verbatim>\<open>bool\<close> is not an integer, and a \<^verbatim>\<open>float\<close> without
  fractional part is one.
\<close>

fun is_type :: "json_type \<Rightarrow> json \<Rightarrow> bool" where
  "is_type T_object (JObject members) = True"
| "is_type T_array (JArray items) = True"
| "is_type T_string (JString s) = True"
| "is_type T_integer (JInt n) = True"
| "is_type T_integer (JFloat q) = (snd (quotient_of q) = 1)"
| "is_type T_number (JInt n) = True"
| "is_type T_number (JFloat q) = True"
| "is_type T_boolean (JBool b) = True"
| "is_type T_null JNull = True"
| "is_type t v = False"

text \<open>A validation error: the path to the offending value and the keyword it violates.\<close>

type_synonym validation_error = "string list \<times> string"

definition check_type :: "json_type option \<Rightarrow> json \<Rightarrow> validation_error list" where
  "check_type ty inst =
     (case ty of None \<Rightarrow> [] | Some t \<Rightarrow> if is_type t inst then [] else [([], ''type'')])"

definition check_required :: "string list \<Rightarrow> json \<Rightarrow> validation_error list" where
  "check_required req inst =
     (case inst of
        JObject members \<Rightarrow>
          concat (map (\<lambda>k. if k \<in> fst ` set members then [] else [([], ''required'')]) req)
      | _ \<Rightarrow> [])"

definition check_additional :: "bool \<Rightarrow> string list \<Rightarrow> json \<Rightarrow> validation_error list" where
  "check_additional allowed declared inst =
     (case inst of
        JObject members \<Rightarrow>
          if allowed \<or> (\<forall>k \<in> fst ` set members. k \<in> set declared) then []
          else [([], ''additionalProperties'')]
      | _ \<Rightarrow> [])"

definition check_minimum :: "int option \<Rightarrow> json \<Rightarrow> validation_error list" where
  "check_minimum mn inst =
     (case mn of
        None \<Rightarrow> []
      | Some m \<Rightarrow>
          (case inst of
             JInt n \<Rightarrow> if n < m then [([], ''minimum'')] else []
           | JFloat q \<Rightarrow> if q < of_int m then [([], ''minimum'')] else []
           | _ \<Rightarrow> []))"

definition check_minLength :: "nat option \<Rightarrow> json \<Rightarrow> validation_error list" where
  "check_minLength ml inst =
     (case ml of
        None \<Rightarrow> []
      | Some l \<Rightarrow>
          (case inst of
             JString s \<Rightarrow> if length s < l then [([], ''minLength'')] else []
           | _ \<Rightarrow> []))"

text \<open>
  Modelled from the spec: \<^verbatim>\<open>validate\<close> is the function of the \<^verbatim>\<open>jsonschema\<close>
  library, which is not among the source files. The model is the structural validation
  the specification describes, for the keywords of the schemas in config.py: the type of a
  value, the presence of required fields, the bounds on values, and the rejection of
  undeclared fields where the schema forbids them. \<open>iter_errors\<close> lists the errors of a
  document keyword by keyword; \<^verbatim>\<open>properties\<close> descends into the members the document
  has.
\<close>

fun iter_errors :: "schema \<Rightarrow> json \<Rightarrow> validation_error list" where
  "iter_errors (Schema ty props req addl mn ml) inst =
     check_type ty inst @
     (case inst of
        JObject members \<Rightarrow>
          concat (map (\<lambda>p. case map_of members (fst p) of
                              None \<Rightarrow> []
                            | Some v \<Rightarrow>
                                map (\<lambda>e. (fst p # fst e, snd e)) (iter_errors (snd p) v))
                      props)
      | _ \<Rightarrow> []) @
     check_required req inst @
     check_additional addl (map fst props) inst @
     check_minimum mn inst @
     check_minLength ml inst"

text \<open>
  \<^verbatim>\<open>validate(instance, schema)\<close> raises \<^verbatim>\<open>ValidationError\<close> when there is an error (which
  one of several it reports is not modelled). \<^verbatim>\<open>validate_json_schema\<close> logs the outcome
  and raises the error again: the result is the exception raised, if any.
\<close>

definition validate :: "json \<Rightarrow> schema \<Rightarrow> exn option" where
  "validate inst sch =
     (if iter_errors sch inst = [] then None else Some (Exception ''ValidationError''))"

definition validate_json_schema :: "json \<Rightarrow> schema \<Rightarrow> exn option" where
  "validate_json_schema data sch = validate data sch"

text \<open>config.py: the schema of a post.\<close>

definition JSONPLACEHOLDER_POST_SCHEMA :: schema where
  "JSONPLACEHOLDER_POST_SCHEMA =
     Schema (Some T_object)
       [(''userId'', Schema (Some T_integer) [] [] True (Some 1) None),
        (''id'', Schema (Some T_integer) [] [] True (Some 1) None),
        (''title'', Schema (Some T_string) [] [] True None (Some 1)),
        (''body'', Schema (Some T_string) [] [] True None (Some 1))]
       [''userId'', ''id'', ''title'', ''body'']
       False None None"

text \<open>Whether a document is a dictionary with the given key.\<close>

fun has_field :: "json \<Rightarrow> string \<Rightarrow> bool" where
  "has_field (JObject members) k = (k \<in> fst ` set members)"
| "has_field v k = False"


section \<open>Properties of the rate-limit probe\<close>


lemma py_int_raises: "py_int s = Inl e \<Longrightarrow> is_Exception e"
  by (auto simp: py_int_def Let_def split: option.splits if_splits)




lemma time_sleep_raises: "time_sleep refuses d st = (st', Some e) \<Longrightarrow> is_Exception e"
  by (auto simp: time_sleep_def split: if_splits)

lemma time_sleep_requests: "requests (events (fst (time_sleep refuses d st))) = requests (events st)"
  by (simp add: time_sleep_def emit_def requests_def)

lemma probe_try_events:
  "\<exists>evs. events (fst (probe_try refuses cfg out i st)) = events st @ Request i # evs \<and>
         requests evs = []"
  by (auto simp: probe_try_def make_api_request_def emit_def time_sleep_def requests_def Let_def
      split: sum.splits exn.splits option.splits)

lemma probe_try_raises:
  "raises_Exception out \<Longrightarrow> probe_try refuses cfg out i st = (st', Some e) \<Longrightarrow> is_Exception e"
  by (auto simp: probe_try_def make_api_request_def emit_def raises_Exception_def
      Let_def split: sum.splits exn.splits option.splits if_splits
      dest: py_int_raises time_sleep_raises)

lemma probe_iteration_events:
  "\<exists>evs. events (fst (probe_iteration refuses cfg out i st)) = events st @ Request i # evs \<and>
         requests evs = []"
proof -
  obtain evs where e:
    "events (fst (probe_try refuses cfg out i st)) = events st @ Request i # evs"
    "requests evs = []"
    using probe_try_events by blast
  show ?thesis
  proof (cases "probe_try refuses cfg out i st")
    case (Pair st' r)
    with e show ?thesis
      by (cases r) (auto simp: probe_iteration_def emit_def requests_def)
  qed
qed

lemma probe_iteration_continues:
  "raises_Exception out \<Longrightarrow> snd (probe_iteration refuses cfg out i st) = None"
  by (cases "probe_try refuses cfg out i st")
     (auto simp: probe_iteration_def split: option.splits dest: probe_try_raises)

lemma probe_iteration_warns:
  "is_Exception e \<Longrightarrow>
   Warning (Suc i) e \<in> set (events (fst (probe_iteration refuses cfg (Inl e) i st)))"
  by (auto simp: probe_iteration_def probe_try_def make_api_request_def emit_def
      split: exn.splits)

lemma probe_loop_events_mono:
  "set (events st) \<subseteq> set (events (fst (probe_loop refuses cfg net js st)))"
proof (induction js arbitrary: st)
  case Nil
  then show ?case by simp
next
  case (Cons j js)
  obtain evs where e:
    "events (fst (probe_iteration refuses cfg (net j) j st)) = events st @ Request j # evs"
    using probe_iteration_events by blast
  show ?case
  proof (cases "probe_iteration refuses cfg (net j) j st")
    case (Pair st' r)
    with e Cons.IH [of st'] show ?thesis by (cases r) auto
  qed
qed

lemma probe_loop_runs_all:
  assumes "\<forall>j \<in> set js. raises_Exception (net j)"
  shows "snd (probe_loop refuses cfg net js st) = None \<and>
         requests (events (fst (probe_loop refuses cfg net js st))) = requests (events st) @ js"
  using assms
proof (induction js arbitrary: st)
  case Nil
  then show ?case by simp
next
  case (Cons j js)
  obtain st' where it: "probe_iteration refuses cfg (net j) j st = (st', None)"
    using probe_iteration_continues [where out = "net j" and refuses = refuses and cfg = cfg
        and i = j and st = st] Cons.prems
    by (cases "probe_iteration refuses cfg (net j) j st") auto
  obtain evs where "events st' = events st @ Request j # evs" "requests evs = []"
    using probe_iteration_events [where out = "net j" and refuses = refuses and cfg = cfg
        and i = j and st = st] it by auto
  then have "requests (events st') = requests (events st) @ [j]"
    by (simp add: requests_def)
  with it Cons.IH [of st'] Cons.prems show ?case by simp
qed

lemma probe_loop_warns:
  assumes "\<forall>j \<in> set js. raises_Exception (net j)" "j \<in> set js" "net j = Inl e"
  shows "Warning (Suc j) e \<in> set (events (fst (probe_loop refuses cfg net js st)))"
  using assms
proof (induction js arbitrary: st)
  case Nil
  then show ?case by simp
next
  case (Cons k js)
  obtain st' where it: "probe_iteration refuses cfg (net k) k st = (st', None)"
    using probe_iteration_continues [where out = "net k" and refuses = refuses and cfg = cfg
        and i = k and st = st] Cons.prems
    by (cases "probe_iteration refuses cfg (net k) k st") auto
  show ?case
  proof (cases "j = k")
    case True
    have "is_Exception e" using Cons.prems True by (auto simp: raises_Exception_def)
    then have "Warning (Suc k) e \<in> set (events st')"
      using probe_iteration_warns [where e = e and i = k and refuses = refuses and cfg = cfg
          and st = st] it Cons.prems True by simp
    then show ?thesis
      using probe_loop_events_mono [where st = st' and refuses = refuses and cfg = cfg
          and net = net and js = js] it True by auto
  next
    case False
    then show ?thesis using Cons it by simp
  qed
qed








text \<open>
  C9. Whatever the transport answers (responses of any status, or exceptions that are
  instances of \<^verbatim>\<open>Exception\<close>) and whatever sleeps the platform refuses, the probe returns
  normally after issuing exactly the requests of iterations \<open>0, ..., max_requests - 1\<close>,
  in this order, one per iteration; an exception raised in iteration \<open>i\<close> is logged as
  the warning of request \<open>i + 1\<close>.
\<close>

theorem probe_runs_max_requests:
  assumes "\<forall>i < max_requests cfg. raises_Exception (net i)"
  shows "\<exists>st. rate_limiting refuses cfg net = (st, None) \<and>
              requests (events st) = [0..<max_requests cfg] \<and>
              (\<forall>i e. i < max_requests cfg \<longrightarrow> net i = Inl e
                       \<longrightarrow> Warning (Suc i) e \<in> set (events st))"
proof -
  let ?js = "[0..<max_requests cfg]"
  have a: "\<forall>j \<in> set ?js. raises_Exception (net j)" using assms by simp
  obtain st where st: "probe_loop refuses cfg net ?js probe_init = (st, None)"
    using probe_loop_runs_all [OF a, of refuses cfg probe_init]
    by (cases "probe_loop refuses cfg net ?js probe_init") auto
  have r: "requests (events st) = ?js"
    using probe_loop_runs_all [OF a, of refuses cfg probe_init] st
    by (simp add: probe_init_def requests_def)
  have w: "\<And>i e. i < max_requests cfg \<Longrightarrow> net i = Inl e
             \<Longrightarrow> Warning (Suc i) e \<in> set (events st)"
    using probe_loop_warns [OF a, of _ _ refuses cfg probe_init] st by simp
  show ?thesis using st r w
    by (auto simp: rate_limiting_def emit_def requests_def)
qed

theorem probe_runs_max_requests_witness:
  "\<exists>st. test_reqres_rate_limiting (\<lambda>d. 9000000000 < d)
          (\<lambda>i. if i = 0 then Inl (RequestException ''timeout'')
               else if i = 1 then Inr \<lparr>status_code = 429, headers = Map.empty\<rparr>
               else Inr \<lparr>status_code = 200, headers = Map.empty\<rparr>) = (st, None) \<and>
        length (requests (events st)) = 100 \<and>
        Warning 1 (RequestException ''timeout'') \<in> set (events st)"
proof -
  let ?net = "\<lambda>i::nat. if i = 0 then Inl (RequestException ''timeout'')
               else if i = 1 then Inr \<lparr>status_code = 429, headers = Map.empty\<rparr>
               else Inr \<lparr>status_code = 200, headers = Map.empty\<rparr>"
  have "\<forall>i < max_requests RATE_LIMIT_CONFIG. raises_Exception (?net i)"
    by (simp add: raises_Exception_def)
  from probe_runs_max_requests [OF this, of "\<lambda>d. 9000000000 < d"]
  show ?thesis
    by (auto simp: test_reqres_rate_limiting_def RATE_LIMIT_CONFIG_def)
qed

section \<open>Properties of the session registry\<close>

lemma map_of_keys: "(map_of xs k = None) = (k \<notin> fst ` set xs)"
  by (simp add: map_of_eq_None_iff)

lemma get_session_registered:
  "get_session fresh m n h = (m', r) \<Longrightarrow> map_of (sessions m') n = Some r"
  by (auto simp: get_session_def Let_def map_add_def split: option.splits)

lemma get_session_keeps:
  "map_of (sessions m) k = Some r \<Longrightarrow> get_session fresh m n h = (m', r')
     \<Longrightarrow> map_of (sessions m') k = Some r"
  by (auto simp: get_session_def Let_def map_add_def split: option.splits)

lemma get_sessions_keeps:
  "map_of (sessions m) k = Some r \<Longrightarrow> get_sessions fresh m calls = (m', rs)
     \<Longrightarrow> map_of (sessions m') k = Some r \<and>
         (\<forall>i < length calls. fst (calls ! i) = k \<longrightarrow> rs ! i = r)"
proof (induction calls arbitrary: m m' rs)
  case Nil
  then show ?case by simp
next
  case (Cons c calls)
  obtain n h where c: "c = (n, h)" by (cases c)
  obtain m1 r1 where g: "get_session fresh m n h = (m1, r1)" by (cases "get_session fresh m n h")
  obtain m2 rs2 where gs: "get_sessions fresh m1 calls = (m2, rs2)"
    by (cases "get_sessions fresh m1 calls")
  from Cons.prems c g gs have eq: "m' = m2" "rs = r1 # rs2" by auto
  have k1: "map_of (sessions m1) k = Some r" using get_session_keeps [OF Cons.prems(1) g] .
  have ih: "map_of (sessions m2) k = Some r \<and>
            (\<forall>i < length calls. fst (calls ! i) = k \<longrightarrow> rs2 ! i = r)"
    using Cons.IH [OF k1 gs] .
  have first: "n = k \<Longrightarrow> r1 = r"
    using get_session_registered [OF g] k1 by simp
  show ?case
  proof (intro conjI allI impI)
    show "map_of (sessions m') k = Some r" using ih eq by simp
  next
    fix i assume "i < length (c # calls)" "fst ((c # calls) ! i) = k"
    then show "rs ! i = r" using ih eq first c by (cases i) auto
  qed
qed

lemma get_sessions_same:
  "get_sessions fresh m calls = (m', rs) \<Longrightarrow> i < length calls \<Longrightarrow> j < length calls
     \<Longrightarrow> i \<le> j \<Longrightarrow> fst (calls ! i) = fst (calls ! j) \<Longrightarrow> rs ! i = rs ! j"
proof (induction calls arbitrary: m m' rs i j)
  case Nil
  then show ?case by simp
next
  case (Cons c calls)
  obtain n h where c: "c = (n, h)" by (cases c)
  obtain m1 r1 where g: "get_session fresh m n h = (m1, r1)" by (cases "get_session fresh m n h")
  obtain m2 rs2 where gs: "get_sessions fresh m1 calls = (m2, rs2)"
    by (cases "get_sessions fresh m1 calls")
  from Cons.prems(1) c g gs have eq: "m' = m2" "rs = r1 # rs2" by auto
  show ?case
  proof (cases i)
    case 0
    show ?thesis
    proof (cases j)
      case 0
      with \<open>i = 0\<close> show ?thesis by simp
    next
      case (Suc j')
      have "rs2 ! j' = r1"
        using get_sessions_keeps [OF get_session_registered [OF g] gs] Cons.prems Suc 0 c
        by auto
      with eq 0 Suc show ?thesis by simp
    qed
  next
    case (Suc i')
    then obtain j' where j: "j = Suc j'" using Cons.prems(4) by (cases j) auto
    have "rs2 ! i' = rs2 ! j'"
      using Cons.IH [OF gs, of i' j'] Cons.prems Suc j by simp
    with eq Suc j show ?thesis by simp
  qed
qed

lemma get_session_objects:
  assumes "get_session fresh m n h = (m', r)"
  shows "fst ` set (sessions m') = insert n (fst ` set (sessions m)) \<and>
     length (objects m') = length (objects m) + (if n \<in> fst ` set (sessions m) then 0 else 1)"
proof (cases "map_of (sessions m) n")
  case None
  then have "n \<notin> fst ` set (sessions m)" by (simp add: map_of_keys)
  with None assms show ?thesis by (auto simp: get_session_def Let_def)
next
  case (Some r0)
  then have "n \<in> fst ` set (sessions m)" using map_of_keys [of "sessions m" n] by auto
  with Some assms show ?thesis by (auto simp: get_session_def)
qed

lemma card_insert_Diff:
  assumes "finite N"
  shows "card (insert n N - K) = (if n \<in> K then 0 else 1) + card (N - insert n K)"
proof (cases "n \<in> K")
  case True
  then have "insert n N - K = N - insert n K" by blast
  then have "card (insert n N - K) = card (N - insert n K)" by (rule arg_cong)
  then show ?thesis by (simp only: True if_True add_0)
next
  case False
  then have "insert n N - K = insert n (N - insert n K)" by blast
  then have "card (insert n N - K) = card (insert n (N - insert n K))" by (rule arg_cong)
  also have "\<dots> = Suc (card (N - insert n K))"
    by (rule card_insert_disjoint) (use assms in simp_all)
  finally show ?thesis by (simp only: False if_False plus_1_eq_Suc)
qed

lemma get_sessions_objects:
  "get_sessions fresh m calls = (m', rs) \<Longrightarrow>
     length (objects m') =
       length (objects m) + card (fst ` set calls - fst ` set (sessions m))"
proof (induction calls arbitrary: m m' rs)
  case Nil
  then show ?case by simp
next
  case (Cons c calls)
  obtain n h where c: "c = (n, h)" by (cases c)
  obtain m1 r1 where g: "get_session fresh m n h = (m1, r1)" by (cases "get_session fresh m n h")
  obtain m2 rs2 where gs: "get_sessions fresh m1 calls = (m2, rs2)"
    by (cases "get_sessions fresh m1 calls")
  from Cons.prems(1) c g gs have eq: "m' = m2" by auto
  let ?K = "fst ` set (sessions m)" and ?N = "fst ` set calls"
  have k1: "fst ` set (sessions m1) = insert n ?K"
    and o1: "length (objects m1) = length (objects m) + (if n \<in> ?K then 0 else 1)"
    using get_session_objects [OF g] by auto
  have ih: "length (objects m2) = length (objects m1) + card (?N - insert n ?K)"
    using Cons.IH [OF gs] k1 by simp
  have "card (insert n ?N - ?K) = (if n \<in> ?K then 0 else 1) + card (?N - insert n ?K)"
    by (rule card_insert_Diff) simp
  with ih o1 eq c show ?case by simp
qed

text \<open>
  C4. In any run of \<^verbatim>\<open>get_session\<close> calls, from any state of the registry, two calls
  with the same name return the same reference, and the run creates exactly one Session
  object for each name that was not registered before it, none for the others.
\<close>

theorem get_session_idempotent:
  assumes "get_sessions fresh m calls = (m', rs)"
  shows "(\<forall>i j. i < length calls \<and> j < length calls \<and> fst (calls ! i) = fst (calls ! j)
            \<longrightarrow> rs ! i = rs ! j) \<and>
         length (objects m') = length (objects m) + card (fst ` set calls - fst ` set (sessions m))"
proof (intro conjI allI impI)
  fix i j
  assume a: "i < length calls \<and> j < length calls \<and> fst (calls ! i) = fst (calls ! j)"
  show "rs ! i = rs ! j"
  proof (cases "i \<le> j")
    case True
    then show ?thesis using get_sessions_same [OF assms, of i j] a by simp
  next
    case False
    then have "j \<le> i" by simp
    then show ?thesis using get_sessions_same [OF assms, of j i] a by simp
  qed
next
  show "length (objects m') = length (objects m) + card (fst ` set calls - fst ` set (sessions m))"
    using get_sessions_objects [OF assms] .
qed

theorem get_session_idempotent_witness:
  "\<exists>m' rs. get_sessions \<lparr>session_headers = Map.empty, adapters = Map.empty\<rparr> api_init
             [(''reqres'', Some REQRES_HEADERS), (''jsonplaceholder'', None), (''reqres'', None)]
             = (m', rs) \<and> rs ! 0 = rs ! 2 \<and> length (objects m') = 2"
proof -
  let ?calls = "[(''reqres'', Some REQRES_HEADERS), (''jsonplaceholder'', None), (''reqres'', None)]"
  obtain m' rs where g:
    "get_sessions \<lparr>session_headers = Map.empty, adapters = Map.empty\<rparr> api_init ?calls = (m', rs)"
    by (cases "get_sessions \<lparr>session_headers = Map.empty, adapters = Map.empty\<rparr> api_init ?calls")
  have "rs ! 0 = rs ! 2" using get_session_idempotent [OF g] by simp
  moreover have "length (objects m') = 2"
    using get_session_idempotent [OF g] by (simp add: api_init_def card_insert_if)
  ultimately show ?thesis using g by blast
qed

lemma close_caught_Cons:
  "close_caught closes ((n, ref) # ss) =
     ((\<forall>e. closes ref = Some e \<longrightarrow> is_Exception e) \<and> close_caught closes ss)"
  by (simp add: close_caught_def)

lemma close_loop_returns:
  "close_caught closes ss \<Longrightarrow> snd (close_loop closes ss tr) = None"
proof (induction ss arbitrary: tr)
  case Nil
  then show ?case by simp
next
  case (Cons s ss)
  obtain n ref where s: "s = (n, ref)" by (cases s)
  from Cons.prems s have c: "close_caught closes ss"
    and e: "\<And>e. closes ref = Some e \<Longrightarrow> is_Exception e"
    by (simp_all add: close_caught_Cons)
  show ?case
  proof (cases "closes ref")
    case None
    then show ?thesis using Cons.IH [OF c] s by simp
  next
    case (Some x)
    then show ?thesis using Cons.IH [OF c] s e [OF Some] by simp
  qed
qed

lemma close_loop_refs:
  "close_caught closes ss \<Longrightarrow>
   closed_refs (fst (close_loop closes ss tr)) = closed_refs tr @ map snd ss"
proof (induction ss arbitrary: tr)
  case Nil
  then show ?case by simp
next
  case (Cons s ss)
  obtain n ref where s: "s = (n, ref)" by (cases s)
  from Cons.prems s have c: "close_caught closes ss"
    and e: "\<And>e. closes ref = Some e \<Longrightarrow> is_Exception e"
    by (simp_all add: close_caught_Cons)
  show ?case
  proof (cases "closes ref")
    case None
    then show ?thesis using Cons.IH [OF c] s by (simp add: closed_refs_def)
  next
    case (Some x)
    then show ?thesis using Cons.IH [OF c] s e [OF Some] by (simp add: closed_refs_def)
  qed
qed

lemma close_loop_mono: "set tr \<subseteq> set (fst (close_loop closes ss tr))"
proof (induction ss arbitrary: tr)
  case Nil
  then show ?case by simp
next
  case (Cons s ss)
  obtain n ref where s: "s = (n, ref)" by (cases s)
  show ?case
  proof (cases "closes ref")
    case None
    then show ?thesis using Cons.IH [of "tr @ [Close ref, Session_closed n]"] s by simp
  next
    case (Some x)
    then show ?thesis using Cons.IH [of "tr @ [Close ref, Close_warning n x]"] s by auto
  qed
qed

lemma close_loop_warns:
  "close_caught closes ss \<Longrightarrow> (n, ref) \<in> set ss \<Longrightarrow> closes ref = Some e
     \<Longrightarrow> Close_warning n e \<in> set (fst (close_loop closes ss tr))"
proof (induction ss arbitrary: tr)
  case Nil
  then show ?case by simp
next
  case (Cons s ss)
  obtain n' ref' where s: "s = (n', ref')" by (cases s)
  from Cons.prems s have c: "close_caught closes ss"
    and e: "\<And>e. closes ref' = Some e \<Longrightarrow> is_Exception e"
    by (simp_all add: close_caught_Cons)
  show ?case
  proof (cases "(n, ref) = (n', ref')")
    case True
    then have ex: "is_Exception e" using e Cons.prems(3) by simp
    have "Close_warning n e \<in> set (tr @ [Close ref, Close_warning n e])" by simp
    then have "Close_warning n e \<in> set (fst (close_loop closes ss (tr @ [Close ref, Close_warning n e])))"
      using close_loop_mono by blast
    then show ?thesis using True s Cons.prems(3) ex by simp
  next
    case False
    then have in_rest: "(n, ref) \<in> set ss" using Cons.prems(2) s by auto
    show ?thesis
    proof (cases "closes ref'")
      case None
      then show ?thesis using Cons.IH [OF c in_rest Cons.prems(3)] s by simp
    next
      case (Some x)
      then show ?thesis using Cons.IH [OF c in_rest Cons.prems(3)] s e [OF Some] by simp
    qed
  qed
qed

text \<open>
  C8. When every exception that closing a registered session raises is an
  \<^verbatim>\<open>Exception\<close>, \<^verbatim>\<open>close_all_sessions\<close> returns normally, has called
  \<^verbatim>\<open>close()\<close> on every registered session, in the order of the registry, has logged a
  warning for each one that raised, and leaves the registry empty.
\<close>

theorem close_all_sessions_best_effort:
  assumes "close_caught closes (sessions m)"
  shows "\<exists>m'. close_all_sessions closes m = (m', None) \<and> sessions m' = [] \<and>
           closed_refs (trace m') = closed_refs (trace m) @ map snd (sessions m) \<and>
           (\<forall>n ref e. (n, ref) \<in> set (sessions m) \<and> closes ref = Some e
               \<longrightarrow> Close_warning n e \<in> set (trace m'))"
proof -
  let ?tr0 = "trace m @ [Close_all_sessions]"
  obtain tr x where r: "close_loop closes (sessions m) ?tr0 = (tr, x)"
    by (cases "close_loop closes (sessions m) ?tr0")
  have x: "x = None" using close_loop_returns [OF assms, of ?tr0] r by simp
  have refs: "closed_refs tr = closed_refs (trace m) @ map snd (sessions m)"
    using close_loop_refs [OF assms, of ?tr0] r by (simp add: closed_refs_def)
  have warn: "\<And>n ref e. (n, ref) \<in> set (sessions m) \<Longrightarrow> closes ref = Some e
                \<Longrightarrow> Close_warning n e \<in> set tr"
    using close_loop_warns [OF assms, of _ _ _ ?tr0] r by simp
  have "close_all_sessions closes m = (m\<lparr>sessions := [], trace := tr\<rparr>, None)"
    using r x by (simp add: close_all_sessions_def)
  moreover have "sessions (m\<lparr>sessions := [], trace := tr\<rparr>) = []" by simp
  moreover have "trace (m\<lparr>sessions := [], trace := tr\<rparr>) = tr" by simp
  ultimately show ?thesis using refs warn by (intro exI [of _ "m\<lparr>sessions := [], trace := tr\<rparr>"]) auto
qed

theorem close_all_sessions_best_effort_witness:
  "\<exists>m'. close_all_sessions (\<lambda>ref. if ref = 0 then Some (Exception ''OSError'') else None)
            \<lparr>sessions = [(''jsonplaceholder'', 0), (''reqres'', 1)], objects = [],
             trace = []\<rparr> = (m', None) \<and>
        sessions m' = [] \<and> closed_refs (trace m') = [0, 1] \<and>
        Close_warning ''jsonplaceholder'' (Exception ''OSError'') \<in> set (trace m')"
proof -
  let ?closes = "\<lambda>ref::nat. if ref = 0 then Some (Exception ''OSError'') else None"
  let ?m = "\<lparr>sessions = [(''jsonplaceholder'', 0), (''reqres'', 1)], objects = [],
             trace = []\<rparr>"
  have "close_caught ?closes (sessions ?m)"
    by (simp add: close_caught_def)
  from close_all_sessions_best_effort [OF this]
  obtain m' where m': "close_all_sessions ?closes ?m = (m', None)" "sessions m' = []"
    "closed_refs (trace m') = closed_refs (trace ?m) @ map snd (sessions ?m)"
    "\<forall>n ref e. (n, ref) \<in> set (sessions ?m) \<and> ?closes ref = Some e
        \<longrightarrow> Close_warning n e \<in> set (trace m')"
    by blast
  have "Close_warning ''jsonplaceholder'' (Exception ''OSError'') \<in> set (trace m')"
    using m'(4) [rule_format, of "''jsonplaceholder''" 0 "Exception ''OSError''"] by simp
  moreover have "closed_refs (trace m') = [0, 1]"
    using m'(3) by (simp add: closed_refs_def)
  ultimately show ?thesis using m'(1,2) by blast
qed

text \<open>
  C10. For a name that is registered, \<^verbatim>\<open>get_session\<close> returns the registered reference
  and leaves the whole state as it was, whatever the \<^verbatim>\<open>headers\<close> argument: the stored
  Session keeps its headers. For a name that is not registered, the call stores a Session
  created from its \<^verbatim>\<open>headers\<close> argument, and a later call with any other argument
  returns that Session unchanged.
\<close>

theorem get_session_ignores_headers:
  "(map_of (sessions m) api_name = Some ref
      \<longrightarrow> get_session fresh m api_name hdrs = (m, ref)) \<and>
   (map_of (sessions m) api_name = None
      \<longrightarrow> (\<exists>m' ref. get_session fresh m api_name hdrs = (m', ref) \<and>
             objects m' ! ref = create_session fresh hdrs \<and>
             get_session fresh m' api_name hdrs' = (m', ref)))"
  by (auto simp: get_session_def Let_def map_add_def)

theorem get_session_ignores_headers_witness:
  "get_session \<lparr>session_headers = Map.empty, adapters = Map.empty\<rparr>
     \<lparr>sessions = [(''reqres'', 0)],
      objects = [create_session \<lparr>session_headers = Map.empty, adapters = Map.empty\<rparr>
                   (Some REQRES_HEADERS)],
      trace = []\<rparr> ''reqres'' (Some [(''X-Test'', ''1'')])
   = (\<lparr>sessions = [(''reqres'', 0)],
       objects = [create_session \<lparr>session_headers = Map.empty, adapters = Map.empty\<rparr>
                    (Some REQRES_HEADERS)],
       trace = []\<rparr>, 0) \<and>
   (\<exists>m' ref. get_session \<lparr>session_headers = Map.empty, adapters = Map.empty\<rparr> api_init
                ''reqres'' (Some REQRES_HEADERS) = (m', ref) \<and>
              objects m' ! ref =
                create_session \<lparr>session_headers = Map.empty, adapters = Map.empty\<rparr>
                  (Some REQRES_HEADERS) \<and>
              get_session \<lparr>session_headers = Map.empty, adapters = Map.empty\<rparr> m'
                ''reqres'' (Some [(''X-Test'', ''1'')]) = (m', ref))"
  using get_session_ignores_headers
          [of "\<lparr>sessions = [(''reqres'', 0)],
                objects = [create_session \<lparr>session_headers = Map.empty, adapters = Map.empty\<rparr>
                             (Some REQRES_HEADERS)],
                trace = []\<rparr>" "''reqres''" 0
              "\<lparr>session_headers = Map.empty, adapters = Map.empty\<rparr>"
              "Some [(''X-Test'', ''1'')]"]
        get_session_ignores_headers
          [of api_init "''reqres''" 0
              "\<lparr>session_headers = Map.empty, adapters = Map.empty\<rparr>"
              "Some REQRES_HEADERS" "Some [(''X-Test'', ''1'')]"]
  by (simp add: api_init_def)

section \<open>Properties of the orchestrator\<close>

lemma get_session_trace: "trace (fst (get_session fresh m n h)) = trace m"
  by (simp add: get_session_def Let_def split: option.splits)

lemma get_sessions_trace: "trace (fst (get_sessions fresh m calls)) = trace m"
proof (induction calls arbitrary: m)
  case Nil
  then show ?case by simp
next
  case (Cons c calls)
  obtain n h where c: "c = (n, h)" by (cases c)
  obtain m1 r1 where g: "get_session fresh m n h = (m1, r1)" by (cases "get_session fresh m n h")
  have "trace m1 = trace m" using get_session_trace [of fresh m n h] g by simp
  then show ?case using Cons.IH [of m1] c g by (auto split: prod.splits)
qed

lemma close_loop_adds:
  "\<exists>new. fst (close_loop closes ss tr) = tr @ new \<and> list_all is_close_event new"
proof (induction ss arbitrary: tr)
  case Nil
  then show ?case by simp
next
  case (Cons s ss)
  obtain n ref where s: "s = (n, ref)" by (cases s)
  show ?case
  proof (cases "closes ref")
    case None
    obtain new where "fst (close_loop closes ss (tr @ [Close ref, Session_closed n]))
        = (tr @ [Close ref, Session_closed n]) @ new" "list_all is_close_event new"
      using Cons.IH by blast
    then show ?thesis using None s
      by (intro exI [of _ "[Close ref, Session_closed n] @ new"]) simp
  next
    case (Some e)
    obtain new where "fst (close_loop closes ss (tr @ [Close ref, Close_warning n e]))
        = (tr @ [Close ref, Close_warning n e]) @ new" "list_all is_close_event new"
      using Cons.IH by blast
    then show ?thesis using Some s
      by (cases "is_Exception e")
         (auto intro: exI [of _ "[Close ref, Close_warning n e] @ new"] exI [of _ "[Close ref]"])
  qed
qed

lemma close_events_tests_run: "list_all is_close_event new \<Longrightarrow> tests_run new = []"
  by (induction new) (auto simp: tests_run_def elim: is_close_event.elims)
lemma close_events_failures: "list_all is_close_event new \<Longrightarrow> failures new = []"
  by (induction new) (auto simp: failures_def elim: is_close_event.elims)
lemma close_events_reports: "list_all is_close_event new \<Longrightarrow> reports new = []"
  by (induction new) (auto simp: reports_def elim: is_close_event.elims)
lemma close_events_teardowns: "list_all is_close_event new \<Longrightarrow> teardowns new = 0"
  by (induction new) (auto simp: teardowns_def)

lemma close_all_sessions_trace:
  "\<exists>new. trace (fst (close_all_sessions closes m)) = trace m @ Close_all_sessions # new \<and>
         list_all is_close_event new"
proof -
  obtain new where n: "fst (close_loop closes (sessions m) (trace m @ [Close_all_sessions]))
      = (trace m @ [Close_all_sessions]) @ new" "list_all is_close_event new"
    using close_loop_adds by blast
  obtain tr x where r: "close_loop closes (sessions m) (trace m @ [Close_all_sessions]) = (tr, x)"
    by (cases "close_loop closes (sessions m) (trace m @ [Close_all_sessions])")
  show ?thesis using n r
    by (cases x) (auto simp: close_all_sessions_def)
qed

lemma close_all_sessions_readings:
  "tests_run (trace (fst (close_all_sessions closes m))) = tests_run (trace m)"
  "failures (trace (fst (close_all_sessions closes m))) = failures (trace m)"
  "reports (trace (fst (close_all_sessions closes m))) = reports (trace m)"
  "teardowns (trace (fst (close_all_sessions closes m))) = teardowns (trace m) + 1"
proof -
  obtain new where n:
    "trace (fst (close_all_sessions closes m)) = trace m @ Close_all_sessions # new"
    "list_all is_close_event new"
    using close_all_sessions_trace by blast
  show "tests_run (trace (fst (close_all_sessions closes m))) = tests_run (trace m)"
    using close_events_tests_run [OF n(2)] by (simp add: n(1) tests_run_def)
  show "failures (trace (fst (close_all_sessions closes m))) = failures (trace m)"
    using close_events_failures [OF n(2)] by (simp add: n(1) failures_def)
  show "reports (trace (fst (close_all_sessions closes m))) = reports (trace m)"
    using close_events_reports [OF n(2)] by (simp add: n(1) reports_def)
  show "teardowns (trace (fst (close_all_sessions closes m))) = teardowns (trace m) + 1"
    using close_events_teardowns [OF n(2)] by (simp add: n(1) teardowns_def)
qed

lemma raise_Exceptions_Cons:
  "raise_Exceptions (t # ts) =
     ((\<forall>e. outcome t = Some e \<longrightarrow> is_Exception e) \<and> raise_Exceptions ts)"
  by (simp add: raise_Exceptions_def)

lemma test_loop_result:
  "raise_Exceptions ts \<Longrightarrow>
     snd (test_loop fresh ts s f m) = None \<and>
     fst (fst (test_loop fresh ts s f m)) = s + length (passed ts) \<and>
     fst (snd (fst (test_loop fresh ts s f m))) = f + length (raised ts)"
proof (induction ts arbitrary: s f m)
  case Nil
  then show ?case by (simp add: passed_def raised_def)
next
  case (Cons t ts)
  from Cons.prems have r: "raise_Exceptions ts"
    and e: "\<And>e. outcome t = Some e \<Longrightarrow> is_Exception e"
    by (simp_all add: raise_Exceptions_Cons)
  show ?case
  proof (cases "outcome t")
    case None
    then show ?thesis using Cons.IH [OF r] by (simp add: Let_def passed_def raised_def)
  next
    case (Some x)
    then show ?thesis using Cons.IH [OF r] e [OF Some]
      by (simp add: Let_def passed_def raised_def)
  qed
qed

lemma test_loop_tests_run:
  "raise_Exceptions ts \<Longrightarrow>
     tests_run (trace (loop_state (test_loop fresh ts s f m)))
       = tests_run (trace m) @ map test_name ts"
proof (induction ts arbitrary: s f m)
  case Nil
  then show ?case by (simp add: loop_state_def)
next
  case (Cons t ts)
  from Cons.prems have r: "raise_Exceptions ts"
    and e: "\<And>e. outcome t = Some e \<Longrightarrow> is_Exception e"
    by (simp_all add: raise_Exceptions_Cons)
  show ?case
  proof (cases "outcome t")
    case None
    then show ?thesis using Cons.IH [OF r]
      by (simp add: Let_def get_sessions_trace tests_run_def)
  next
    case (Some x)
    then show ?thesis using Cons.IH [OF r] e [OF Some]
      by (simp add: Let_def get_sessions_trace tests_run_def)
  qed
qed

lemma test_loop_failures:
  "raise_Exceptions ts \<Longrightarrow>
     failures (trace (loop_state (test_loop fresh ts s f m))) = failures (trace m) @ raised ts"
proof (induction ts arbitrary: s f m)
  case Nil
  then show ?case by (simp add: loop_state_def raised_def)
next
  case (Cons t ts)
  from Cons.prems have r: "raise_Exceptions ts"
    and e: "\<And>e. outcome t = Some e \<Longrightarrow> is_Exception e"
    by (simp_all add: raise_Exceptions_Cons)
  show ?case
  proof (cases "outcome t")
    case None
    then show ?thesis using Cons.IH [OF r]
      by (simp add: Let_def get_sessions_trace failures_def raised_def)
  next
    case (Some x)
    then show ?thesis using Cons.IH [OF r] e [OF Some]
      by (simp add: Let_def get_sessions_trace failures_def raised_def)
  qed
qed

lemma test_loop_reports:
  "reports (trace (loop_state (test_loop fresh ts s f m))) = reports (trace m)"
proof (induction ts arbitrary: s f m)
  case Nil
  then show ?case by (simp add: loop_state_def)
next
  case (Cons t ts)
  show ?case
  proof (cases "outcome t")
    case None
    then show ?thesis using Cons.IH
      by (simp add: Let_def get_sessions_trace reports_def)
  next
    case (Some x)
    then show ?thesis using Cons.IH
      by (cases "is_Exception x") (simp_all add: Let_def get_sessions_trace reports_def loop_state_def)
  qed
qed

lemma test_loop_teardowns:
  "teardowns (trace (loop_state (test_loop fresh ts s f m))) = teardowns (trace m)"
proof (induction ts arbitrary: s f m)
  case Nil
  then show ?case by (simp add: loop_state_def)
next
  case (Cons t ts)
  show ?case
  proof (cases "outcome t")
    case None
    then show ?thesis using Cons.IH
      by (simp add: Let_def get_sessions_trace teardowns_def)
  next
    case (Some x)
    then show ?thesis using Cons.IH
      by (cases "is_Exception x") (simp_all add: Let_def get_sessions_trace teardowns_def loop_state_def)
  qed
qed


lemma run_tests_state:
  "fst (run_tests closes fresh ts m) = fst (close_all_sessions closes (fst (try_tests fresh ts m)))"
  by (simp add: run_tests_def split: prod.splits option.splits)

lemma try_tests_teardowns:
  "teardowns (trace (fst (try_tests fresh ts m))) = teardowns (trace m)"
proof -
  obtain s f m1 x where r: "test_loop fresh ts 0 0 m = ((s, f, m1), x)"
    by (cases "test_loop fresh ts 0 0 m") auto
  have "teardowns (trace m1) = teardowns (trace m)"
    using test_loop_teardowns [of fresh ts 0 0 m] r by (simp add: loop_state_def)
  then show ?thesis using r
    by (cases x) (simp_all add: try_tests_def Let_def teardowns_def)
qed

lemma try_tests_readings:
  assumes "raise_Exceptions ts"
  shows "tests_run (trace (fst (try_tests fresh ts m))) = tests_run (trace m) @ map test_name ts"
    and "failures (trace (fst (try_tests fresh ts m))) = failures (trace m) @ raised ts"
    and "reports (trace (fst (try_tests fresh ts m)))
           = reports (trace m) @ [(length (passed ts), length (raised ts))]"
proof -
  obtain s f m1 x where r: "test_loop fresh ts 0 0 m = ((s, f, m1), x)"
    by (cases "test_loop fresh ts 0 0 m") auto
  have x: "x = None" and s: "s = length (passed ts)" and f: "f = length (raised ts)"
    using test_loop_result [OF assms, of fresh 0 0 m] r by simp_all
  have t: "tests_run (trace m1) = tests_run (trace m) @ map test_name ts"
    using test_loop_tests_run [OF assms, of fresh 0 0 m] r by (simp add: loop_state_def)
  have fl: "failures (trace m1) = failures (trace m) @ raised ts"
    using test_loop_failures [OF assms, of fresh 0 0 m] r by (simp add: loop_state_def)
  have rp: "reports (trace m1) = reports (trace m)"
    using test_loop_reports [of fresh ts 0 0 m] r by (simp add: loop_state_def)
  show "tests_run (trace (fst (try_tests fresh ts m))) = tests_run (trace m) @ map test_name ts"
    using r x t by (simp add: try_tests_def Let_def tests_run_def)
  show "failures (trace (fst (try_tests fresh ts m))) = failures (trace m) @ raised ts"
    using r x fl by (simp add: try_tests_def Let_def failures_def)
  show "reports (trace (fst (try_tests fresh ts m)))
           = reports (trace m) @ [(length (passed ts), length (raised ts))]"
    using r x rp s f by (simp add: try_tests_def Let_def reports_def)
qed

text \<open>
  C5. For every list of test functions, every registry state and whatever closing the
  sessions does, \<^verbatim>\<open>close_all_sessions\<close> is entered exactly once. When the exceptions the
  test functions raise are instances of \<^verbatim>\<open>Exception\<close>, every test function of the
  list is run, in order, each one that raises is recorded as one failure, and one report
  is printed, with the number of test functions that returned and the number that raised.
\<close>

theorem orchestrator_counts_and_teardown:
  "teardowns (trace (fst (run_tests closes fresh ts m))) = teardowns (trace m) + 1 \<and>
   (raise_Exceptions ts \<longrightarrow>
      tests_run (trace (fst (run_tests closes fresh ts m)))
        = tests_run (trace m) @ map test_name ts \<and>
      failures (trace (fst (run_tests closes fresh ts m))) = failures (trace m) @ raised ts \<and>
      reports (trace (fst (run_tests closes fresh ts m)))
        = reports (trace m) @ [(length (passed ts), length (raised ts))])"
proof (intro conjI impI)
  show "teardowns (trace (fst (run_tests closes fresh ts m))) = teardowns (trace m) + 1"
    by (simp add: run_tests_state close_all_sessions_readings try_tests_teardowns)
next
  assume a: "raise_Exceptions ts"
  show "tests_run (trace (fst (run_tests closes fresh ts m)))
        = tests_run (trace m) @ map test_name ts"
    by (simp add: run_tests_state close_all_sessions_readings try_tests_readings [OF a])
  show "failures (trace (fst (run_tests closes fresh ts m))) = failures (trace m) @ raised ts"
    by (simp add: run_tests_state close_all_sessions_readings try_tests_readings [OF a])
  show "reports (trace (fst (run_tests closes fresh ts m)))
        = reports (trace m) @ [(length (passed ts), length (raised ts))]"
    by (simp add: run_tests_state close_all_sessions_readings try_tests_readings [OF a])
qed

theorem orchestrator_counts_and_teardown_witness:
  "teardowns (trace (fst (run_tests (\<lambda>ref. None) \<lparr>session_headers = Map.empty, adapters = Map.empty\<rparr>
      [test_jsonplaceholder_api None,
       test_reqres_api (Some (Exception ''AssertionError'')),
       test_jsonplaceholder_api None] api_init))) = 1 \<and>
   tests_run (trace (fst (run_tests (\<lambda>ref. None) \<lparr>session_headers = Map.empty, adapters = Map.empty\<rparr>
      [test_jsonplaceholder_api None,
       test_reqres_api (Some (Exception ''AssertionError'')),
       test_jsonplaceholder_api None] api_init)))
     = [''test_jsonplaceholder_api'', ''test_reqres_api'', ''test_jsonplaceholder_api''] \<and>
   failures (trace (fst (run_tests (\<lambda>ref. None) \<lparr>session_headers = Map.empty, adapters = Map.empty\<rparr>
      [test_jsonplaceholder_api None,
       test_reqres_api (Some (Exception ''AssertionError'')),
       test_jsonplaceholder_api None] api_init)))
     = [(''test_reqres_api'', Exception ''AssertionError'')] \<and>
   reports (trace (fst (run_tests (\<lambda>ref. None) \<lparr>session_headers = Map.empty, adapters = Map.empty\<rparr>
      [test_jsonplaceholder_api None,
       test_reqres_api (Some (Exception ''AssertionError'')),
       test_jsonplaceholder_api None] api_init))) = [(2, 1)]"
proof -
  let ?ts = "[test_jsonplaceholder_api None,
       test_reqres_api (Some (Exception ''AssertionError'')),
       test_jsonplaceholder_api None]"
  have "raise_Exceptions ?ts"
    by (simp add: raise_Exceptions_def test_jsonplaceholder_api_def test_reqres_api_def)
  then show ?thesis
    using orchestrator_counts_and_teardown
            [of "\<lambda>ref. None" "\<lparr>session_headers = Map.empty, adapters = Map.empty\<rparr>" ?ts api_init]
    by (simp add: api_init_def teardowns_def tests_run_def failures_def reports_def
        passed_def raised_def test_jsonplaceholder_api_def test_reqres_api_def)
qed

section \<open>The exit code of the script\<close>

lemma script_environment_unmet: "\<not> check_environment inp \<Longrightarrow> script inp = 1"
  by (simp add: script_def main_def)

lemma close_loop_pending:
  "snd (close_loop closes ss tr) = Some e \<Longrightarrow> \<not> is_Exception e"
proof (induction ss arbitrary: tr)
  case Nil
  then show ?case by simp
next
  case (Cons s ss)
  obtain n ref where s: "s = (n, ref)" by (cases s)
  show ?case
  proof (cases "closes ref")
    case None
    then show ?thesis using Cons s by simp
  next
    case (Some x)
    then show ?thesis using Cons s by (cases "is_Exception x") auto
  qed
qed

lemma close_all_sessions_pending:
  "snd (close_all_sessions closes m) = Some e \<Longrightarrow> \<not> is_Exception e"
  using close_loop_pending [of closes "sessions m" "trace m @ [Close_all_sessions]" e]
  by (auto simp: close_all_sessions_def split: prod.splits option.splits)

lemma test_loop_pending:
  "snd (test_loop fresh ts s f m) = Some e \<Longrightarrow> \<not> is_Exception e"
proof (induction ts arbitrary: s f m)
  case Nil
  then show ?case by simp
next
  case (Cons t ts)
  show ?case
  proof (cases "outcome t")
    case None
    then show ?thesis using Cons by (simp add: Let_def)
  next
    case (Some x)
    then show ?thesis using Cons by (cases "is_Exception x") (auto simp: Let_def)
  qed
qed

lemma try_tests_pending:
  "snd (try_tests fresh ts m) = Some e \<Longrightarrow> \<not> is_Exception e"
  using test_loop_pending [of fresh ts 0 0 m e]
  by (auto simp: try_tests_def Let_def split: prod.splits option.splits if_splits)

lemma run_tests_pending:
  "snd (run_tests closes fresh ts m) = Some e \<Longrightarrow> \<not> is_Exception e"
  using try_tests_pending [of fresh ts m e]
    close_all_sessions_pending [of closes "fst (try_tests fresh ts m)" e]
  by (auto simp: run_tests_def split: prod.splits option.splits)

text \<open>
  Whatever the test functions do, \<^verbatim>\<open>_execute_test_suite\<close> never reports the API suite
  as failed: the suite function raises no \<^verbatim>\<open>Exception\<close>.
\<close>

lemma api_suite_never_reported_failed:
  "execute_test_suite (snd (run_all_api_tests closes fresh out1 out2 m)) \<noteq> Inr False"
  using run_tests_pending [of closes fresh "[test_jsonplaceholder_api out1, test_reqres_api out2]" m]
  by (auto simp: execute_test_suite_def run_all_api_tests_def split: option.splits)

text \<open>Exit code 0 on a run where nothing raises, 1 when a prerequisite is unmet.\<close>

lemma exit_code_sound_runs:
  "script quiet_run = 0 \<and> script (quiet_run\<lparr>version_minor := 7\<rparr>) = 1 \<and>
   script (quiet_run\<lparr>importable := (\<lambda>name. name \<noteq> ''jsonschema'')\<rparr>) = 1"
  by code_simp

text \<open>
  C6, at three runs. On a sound installation where only \<^verbatim>\<open>test_reqres_api\<close> fails (it
  raises \<^verbatim>\<open>AssertionError\<close>) the exit code is 0: \<^verbatim>\<open>run_all_api_tests\<close> counts the
  failure and returns, so the suite is taken as passed. When the user interrupts the
  first web test the exit code is 1, the code of a failed run: \<^verbatim>\<open>run_all_tests\<close> catches
  the \<^verbatim>\<open>KeyboardInterrupt\<close> and returns \<open>False\<close>. Only an interrupt outside
  \<^verbatim>\<open>run_all_tests\<close>, here in the pause before the run, gives 130.
\<close>

theorem exit_code_at_failures:
  "script (quiet_run\<lparr>reqres_test := Some (Exception ''AssertionError'')\<rparr>) = 0 \<and>
   script (quiet_run\<lparr>web_tests :=
      (\<lambda>t. if t = ''test_authentication'' then Some KeyboardInterrupt else None)\<rparr>) = 1 \<and>
   script (quiet_run\<lparr>startup_sleep := Some KeyboardInterrupt\<rparr>) = 130"
  by code_simp

section \<open>Properties of the schema of a post\<close>

lemma required_missing:
  "k \<in> set req \<Longrightarrow> \<not> has_field d k \<Longrightarrow> d = JObject members \<Longrightarrow> check_required req d \<noteq> []"
  by (auto simp: check_required_def)

lemma post_missing_field_fails:
  assumes "k \<in> {''userId'', ''id'', ''title'', ''body''}" "\<not> has_field d k"
  shows "validate_json_schema d JSONPLACEHOLDER_POST_SCHEMA = Some (Exception ''ValidationError'')"
proof (cases d)
  case (JObject members)
  have "check_required [''userId'', ''id'', ''title'', ''body''] d \<noteq> []"
    using assms JObject by (intro required_missing [of k _ d members]) auto
  then show ?thesis
    by (simp add: validate_json_schema_def validate_def JSONPLACEHOLDER_POST_SCHEMA_def)
qed (simp_all add: validate_json_schema_def validate_def JSONPLACEHOLDER_POST_SCHEMA_def check_type_def)

lemma post_extra_field_fails:
  assumes "(k, v) \<in> set members" "k \<notin> {''userId'', ''id'', ''title'', ''body''}"
  shows "validate_json_schema (JObject members) JSONPLACEHOLDER_POST_SCHEMA
           = Some (Exception ''ValidationError'')"
proof -
  have "k \<in> fst ` set members" using assms(1) by force
  then have "check_additional False [''userId'', ''id'', ''title'', ''body''] (JObject members) \<noteq> []"
    using assms(2) by (auto simp: check_additional_def)
  then show ?thesis
    by (simp add: validate_json_schema_def validate_def JSONPLACEHOLDER_POST_SCHEMA_def)
qed

lemma post_exact_fields_pass:
  assumes "fst ` set members = {''userId'', ''id'', ''title'', ''body''}"
    and "map_of members ''userId'' = Some (JInt u)" "1 \<le> u"
    and "map_of members ''id'' = Some (JInt i)" "1 \<le> i"
    and "map_of members ''title'' = Some (JString t)" "t \<noteq> []"
    and "map_of members ''body'' = Some (JString b)" "b \<noteq> []"
  shows "validate_json_schema (JObject members) JSONPLACEHOLDER_POST_SCHEMA = None"
proof -
  have len: "\<not> length t < 1" "\<not> length b < 1" using assms(7,9) by (simp_all add: Suc_le_eq)
  show ?thesis
    using len assms(2-6) assms(8)
    by (simp add: validate_json_schema_def validate_def JSONPLACEHOLDER_POST_SCHEMA_def
        check_type_def check_minimum_def check_minLength_def check_required_def
        check_additional_def assms(1))
qed

text \<open>
  C7. Against the schema of a post: a document that lacks one of the required fields
  \<^verbatim>\<open>userId\<close>, \<^verbatim>\<open>id\<close>, \<^verbatim>\<open>title\<close>, \<^verbatim>\<open>body\<close> fails validation (also a document that is no
  dictionary); a dictionary with exactly these four keys, integers of at least 1 under
  \<^verbatim>\<open>userId\<close> and \<^verbatim>\<open>id\<close> and non-empty strings under \<^verbatim>\<open>title\<close> and \<^verbatim>\<open>body\<close> passes;
  and a dictionary with a key the schema does not declare fails, whatever else it holds.
\<close>

theorem post_schema_validation:
  "(k \<in> {''userId'', ''id'', ''title'', ''body''} \<and> \<not> has_field d k
      \<longrightarrow> validate_json_schema d JSONPLACEHOLDER_POST_SCHEMA
            = Some (Exception ''ValidationError'')) \<and>
   (fst ` set members = {''userId'', ''id'', ''title'', ''body''} \<and>
    map_of members ''userId'' = Some (JInt u) \<and> 1 \<le> u \<and>
    map_of members ''id'' = Some (JInt i) \<and> 1 \<le> i \<and>
    map_of members ''title'' = Some (JString t) \<and> t \<noteq> [] \<and>
    map_of members ''body'' = Some (JString b) \<and> b \<noteq> []
      \<longrightarrow> validate_json_schema (JObject members) JSONPLACEHOLDER_POST_SCHEMA = None) \<and>
   ((k', v) \<in> set members' \<and> k' \<notin> {''userId'', ''id'', ''title'', ''body''}
      \<longrightarrow> validate_json_schema (JObject members') JSONPLACEHOLDER_POST_SCHEMA
            = Some (Exception ''ValidationError''))"
proof (intro conjI impI)
  assume "k \<in> {''userId'', ''id'', ''title'', ''body''} \<and> \<not> has_field d k"
  then show "validate_json_schema d JSONPLACEHOLDER_POST_SCHEMA
               = Some (Exception ''ValidationError'')"
    using post_missing_field_fails [of k d] by blast
next
  assume "fst ` set members = {''userId'', ''id'', ''title'', ''body''} \<and>
    map_of members ''userId'' = Some (JInt u) \<and> 1 \<le> u \<and>
    map_of members ''id'' = Some (JInt i) \<and> 1 \<le> i \<and>
    map_of members ''title'' = Some (JString t) \<and> t \<noteq> [] \<and>
    map_of members ''body'' = Some (JString b) \<and> b \<noteq> []"
  then show "validate_json_schema (JObject members) JSONPLACEHOLDER_POST_SCHEMA = None"
    using post_exact_fields_pass [of members u i t b] by blast
next
  assume "(k', v) \<in> set members' \<and> k' \<notin> {''userId'', ''id'', ''title'', ''body''}"
  then show "validate_json_schema (JObject members') JSONPLACEHOLDER_POST_SCHEMA
               = Some (Exception ''ValidationError'')"
    using post_extra_field_fails [of k' v members'] by blast
qed

theorem post_schema_validation_witness:
  "validate_json_schema
     (JObject [(''userId'', JInt 1), (''id'', JInt 7), (''title'', JString ''qui est esse'')])
     JSONPLACEHOLDER_POST_SCHEMA = Some (Exception ''ValidationError'') \<and>
   validate_json_schema
     (JObject [(''userId'', JInt 1), (''id'', JInt 7), (''title'', JString ''qui est esse''),
               (''body'', JString ''est rerum'')])
     JSONPLACEHOLDER_POST_SCHEMA = None \<and>
   validate_json_schema
     (JObject [(''userId'', JInt 1), (''id'', JInt 7), (''title'', JString ''qui est esse''),
               (''body'', JString ''est rerum''), (''views'', JInt 3)])
     JSONPLACEHOLDER_POST_SCHEMA = Some (Exception ''ValidationError'')"
  using post_schema_validation
    [where k = "''body''"
       and d = "JObject [(''userId'', JInt 1), (''id'', JInt 7),
                         (''title'', JString ''qui est esse'')]"
       and members = "[(''userId'', JInt 1), (''id'', JInt 7),
                       (''title'', JString ''qui est esse''), (''body'', JString ''est rerum'')]"
       and u = 1 and i = 7 and t = "''qui est esse''" and b = "''est rerum''"
       and k' = "''views''" and v = "JInt 3"
       and members' = "[(''userId'', JInt 1), (''id'', JInt 7),
                        (''title'', JString ''qui est esse''), (''body'', JString ''est rerum''),
                        (''views'', JInt 3)]"]
  by (simp add: insert_commute)

end
